theory Spec2Isabelle
  imports Main
begin

section \<open>Strings of the source language\<close>

text \<open>
  The source is TypeScript. A string there is a sequence of UTF-16 code units and
  \<open>.length\<close> counts code units, so a string is modelled as a list of code units,
  each a natural number (the bound \<open>65536\<close> plays no role in any function below).
  \<open>str\<close> turns a literal into such a list.
\<close>

type_synonym codeunit = nat
type_synonym jsstring = "codeunit list"

definition str :: "string \<Rightarrow> jsstring" where
  "str s = map of_char s"

text \<open>
  The class \<open>\s\<close> of a regular expression and the characters removed by
  \<open>trim()\<close> are the same set: the white space and line terminator code points.
\<close>

definition isWhiteSpace :: "codeunit \<Rightarrow> bool" where
  "isWhiteSpace c \<longleftrightarrow>
     c = 0x09 \<or> c = 0x0A \<or> c = 0x0B \<or> c = 0x0C \<or> c = 0x0D \<or> c = 0x20 \<or> c = 0xA0 \<or>
     c = 0x1680 \<or> (0x2000 \<le> c \<and> c \<le> 0x200A) \<or> c = 0x2028 \<or> c = 0x2029 \<or>
     c = 0x202F \<or> c = 0x205F \<or> c = 0x3000 \<or> c = 0xFEFF"

text \<open>
  \<open>content.split(/\s+/)\<close>: the text is cut at every maximal run of white space. A run
  at the very start or the very end leaves an empty string in the result, and the empty
  text gives the one-element array holding the empty string.
\<close>

function splitWhitespace :: "jsstring \<Rightarrow> jsstring list" where
  "splitWhitespace s =
     (case dropWhile (\<lambda>c. \<not> isWhiteSpace c) s of
        [] \<Rightarrow> [s]
      | _ # rest \<Rightarrow> takeWhile (\<lambda>c. \<not> isWhiteSpace c) s # splitWhitespace (dropWhile isWhiteSpace rest))"
  by pat_completeness auto
termination
proof (relation "measure length")
  show "wf (measure length)" by simp
next
  fix s :: jsstring and c rest
  assume h: "dropWhile (\<lambda>c. \<not> isWhiteSpace c) s = c # rest"
  have "length (dropWhile isWhiteSpace rest) \<le> length rest"
    by (rule length_dropWhile_le)
  moreover have "length (c # rest) \<le> length s"
    using length_dropWhile_le [of "\<lambda>c. \<not> isWhiteSpace c" s] h by simp
  ultimately show "(dropWhile isWhiteSpace rest, s) \<in> measure length" by simp
qed

declare splitWhitespace.simps [simp del]

text \<open>\<open>array.join(sep)\<close>.\<close>

fun join :: "jsstring \<Rightarrow> jsstring list \<Rightarrow> jsstring" where
  "join sep [] = []"
| "join sep [x] = x"
| "join sep (x # y # ys) = x @ sep @ join sep (y # ys)"

text \<open>\<open>string.trim()\<close>.\<close>

definition trim :: "jsstring \<Rightarrow> jsstring" where
  "trim s = rev (dropWhile isWhiteSpace (rev (dropWhile isWhiteSpace s)))"

text \<open>
  \<open>string.slice(start, end)\<close> and \<open>array.slice(start, end)\<close> for indices that are not
  negative, the only ones the program passes.
\<close>

definition slice :: "'a list \<Rightarrow> nat \<Rightarrow> nat \<Rightarrow> 'a list" where
  "slice xs start end = take (end - start) (drop start xs)"

text \<open>\<open>/[.!?]$/.test(word)\<close>: the last code unit is a full stop, an exclamation or a question mark.\<close>

definition endsSentence :: "jsstring \<Rightarrow> bool" where
  "endsSentence word \<longleftrightarrow> word \<noteq> [] \<and> (last word = 0x2E \<or> last word = 0x21 \<or> last word = 0x3F)"

section \<open>splitLongWord\<close>

text \<open>
  The \<open>while\<close> loop of \<open>splitLongWord\<close>, with \<open>start\<close> and \<open>parts\<close> as its state. With
  \<open>maxLength = 0\<close> the index never moves and the loop does not end, so the loop is a
  partial function and \<open>None\<close> stands for not returning.
\<close>

partial_function (option) splitLongWord_loop ::
    "jsstring \<Rightarrow> nat \<Rightarrow> nat \<Rightarrow> jsstring list \<Rightarrow> jsstring list option" where
  "splitLongWord_loop word maxLength start parts =
     (if start < length word
      then splitLongWord_loop word maxLength (start + maxLength)
             (parts @ [slice word start (start + maxLength)])
      else Some parts)"

declare splitLongWord_loop.simps [code]

definition splitLongWord :: "jsstring \<Rightarrow> nat \<Rightarrow> jsstring list option" where
  "splitLongWord word maxLength = splitLongWord_loop word maxLength 0 []"

section \<open>createTweets\<close>

text \<open>The three variables the callback of \<open>words.forEach\<close> mutates.\<close>

record state =
  tweets :: "jsstring list"
  currentWords :: "jsstring list"
  lastSentenceBreak :: int

definition buildTweet :: "jsstring list \<Rightarrow> jsstring" where
  "buildTweet wordsArray = join [0x20] wordsArray"

text \<open>The callback of \<open>parts.forEach\<close>, for one part and its index.\<close>

definition partStep :: "nat \<Rightarrow> jsstring \<Rightarrow> nat \<Rightarrow> state \<Rightarrow> state" where
  "partStep maxLength part idx st =
     (if idx = 0 \<and> length (currentWords st) > 0
         \<and> length (buildTweet (currentWords st @ [part])) \<le> maxLength
      then
        st\<lparr>currentWords := currentWords st @ [part],
           lastSentenceBreak :=
             (if endsSentence part then int (length (currentWords st @ [part])) - 1
              else lastSentenceBreak st)\<rparr>
      else
        (let st1 = (if length (currentWords st) > 0
                    then st\<lparr>tweets := tweets st @ [trim (buildTweet (currentWords st))],
                            currentWords := []\<rparr>
                    else st)
         in st1\<lparr>tweets := tweets st1 @ [part]\<rparr>))"

fun forEachPart :: "nat \<Rightarrow> jsstring list \<Rightarrow> nat \<Rightarrow> state \<Rightarrow> state" where
  "forEachPart maxLength [] idx st = st"
| "forEachPart maxLength (part # parts) idx st =
     forEachPart maxLength parts (idx + 1) (partStep maxLength part idx st)"

text \<open>
  The overflow branch up to the reset of \<open>lastSentenceBreak\<close>. The index
  \<open>lastSentenceBreak + 1\<close> given to \<open>slice\<close> is a natural number here, since
  \<open>lastSentenceBreak\<close> is never below \<open>-1\<close>; \<open>slice(k)\<close> with one argument is \<open>drop k\<close>.
\<close>

definition flushTweet :: "state \<Rightarrow> state" where
  "flushTweet st =
     (let st1 =
        (if lastSentenceBreak st \<noteq> - 1
         then st\<lparr>tweets := tweets st @
                    [trim (buildTweet (slice (currentWords st) 0 (nat (lastSentenceBreak st + 1))))],
                 currentWords := drop (nat (lastSentenceBreak st + 1)) (currentWords st)\<rparr>
         else if length (currentWords st) > 0
         then st\<lparr>tweets := tweets st @ [trim (buildTweet (currentWords st))],
                 currentWords := []\<rparr>
         else st)
      in st1\<lparr>lastSentenceBreak := - 1\<rparr>)"

text \<open>\<open>currentWords.push(word)\<close> followed by the update of the sentence break.\<close>

definition pushWord :: "jsstring \<Rightarrow> state \<Rightarrow> state" where
  "pushWord word st =
     st\<lparr>currentWords := currentWords st @ [word],
        lastSentenceBreak :=
          (if endsSentence word then int (length (currentWords st @ [word])) - 1
           else lastSentenceBreak st)\<rparr>"

text \<open>The callback of \<open>words.forEach\<close>, for one word.\<close>

definition wordStep :: "nat \<Rightarrow> state \<Rightarrow> jsstring \<Rightarrow> state option" where
  "wordStep maxLength st word =
     (if length (join [0x20] (currentWords st @ [word])) \<le> maxLength
      then Some (pushWord word st)
      else
        (let st1 = flushTweet st in
         if length word > maxLength
         then (case splitLongWord word maxLength of
                 None \<Rightarrow> None
               | Some parts \<Rightarrow> Some (forEachPart maxLength parts 0 st1))
         else Some (pushWord word st1)))"

fun forEachWord :: "nat \<Rightarrow> jsstring list \<Rightarrow> state \<Rightarrow> state option" where
  "forEachWord maxLength [] st = Some st"
| "forEachWord maxLength (word # words) st =
     (case wordStep maxLength st word of
        None \<Rightarrow> None
      | Some st' \<Rightarrow> forEachWord maxLength words st')"

definition createTweets :: "jsstring \<Rightarrow> nat \<Rightarrow> jsstring list option" where
  "createTweets content maxLength =
     (case forEachWord maxLength (splitWhitespace content)
             \<lparr>tweets = [], currentWords = [], lastSentenceBreak = - 1\<rparr> of
        None \<Rightarrow> None
      | Some st \<Rightarrow>
          Some (if length (currentWords st) > 0
                then tweets st @ [trim (buildTweet (currentWords st))]
                else tweets st))"

section \<open>sanitizeFileName\<close>

text \<open>
  \<open>name.replace(/[...]/g, replacement)\<close> for a character class: the scan goes left to
  right and every code unit of the class is replaced.
\<close>

fun replaceClass :: "codeunit list \<Rightarrow> jsstring \<Rightarrow> jsstring \<Rightarrow> jsstring" where
  "replaceClass cls replacement [] = []"
| "replaceClass cls replacement (c # cs) =
     (if c \<in> set cls then replacement @ replaceClass cls replacement cs
      else c # replaceClass cls replacement cs)"

text \<open>The class \<open>[\\\/:*?"<>|]\<close>: backslash, slash, colon, star, question mark, double quote, less, greater, bar.\<close>

definition illegalChars :: "codeunit list" where
  "illegalChars = [0x5C, 0x2F, 0x3A, 0x2A, 0x3F, 0x22, 0x3C, 0x3E, 0x7C]"

definition sanitizeFileName :: "jsstring \<Rightarrow> jsstring" where
  "sanitizeFileName name = replaceClass illegalChars [] name"

section \<open>Notions used to state the properties\<close>

text \<open>
  The fixed-width slices of a list, as a total function: the first \<open>n\<close> elements, then
  the slices of what is left. It is what the loop of \<open>splitLongWord\<close> is compared with.
\<close>

function slices :: "nat \<Rightarrow> 'a list \<Rightarrow> 'a list list" where
  "slices n xs = (if n = 0 \<or> xs = [] then [] else take n xs # slices n (drop n xs))"
  by pat_completeness auto
termination
  by (relation "measure (\<lambda>(n, xs). length xs)") auto

declare slices.simps [simp del]

text \<open>A string with no white space in it.\<close>

definition spaceFree :: "jsstring \<Rightarrow> bool" where
  "spaceFree w \<longleftrightarrow> list_all (\<lambda>c. \<not> isWhiteSpace c) w"

text \<open>A string that neither begins nor ends with white space; the empty string is one.\<close>

definition noEdgeSpace :: "jsstring \<Rightarrow> bool" where
  "noEdgeSpace t \<longleftrightarrow> t = [] \<or> (\<not> isWhiteSpace (hd t) \<and> \<not> isWhiteSpace (last t))"

text \<open>Every chunk emitted so far neither begins nor ends with white space.\<close>

definition trimmedTweets :: "state \<Rightarrow> bool" where
  "trimmedTweets st \<longleftrightarrow> (\<forall>t \<in> set (tweets st). noEdgeSpace t)"

text \<open>The words of a text: its maximal runs of code units that are not white space.\<close>

definition wordsOf :: "jsstring \<Rightarrow> jsstring list" where
  "wordsOf s = filter (\<lambda>w. w \<noteq> []) (splitWhitespace s)"

text \<open>
  The words the state accounts for: those of the chunks emitted so far, then the
  non-empty strings of the buffer.
\<close>

definition coveredWords :: "state \<Rightarrow> jsstring list" where
  "coveredWords st =
     concat (map wordsOf (tweets st)) @ filter (\<lambda>w. w \<noteq> []) (currentWords st)"

text \<open>A word that is not empty, holds no white space and fits in a chunk.\<close>

definition goodWord :: "nat \<Rightarrow> jsstring \<Rightarrow> bool" where
  "goodWord maxLength w \<longleftrightarrow> w \<noteq> [] \<and> spaceFree w \<and> length w \<le> maxLength"

text \<open>The sentence break is \<open>-1\<close> or an index into the buffer.\<close>

definition breakInRange :: "state \<Rightarrow> bool" where
  "breakInRange st \<longleftrightarrow>
     lastSentenceBreak st = - 1
     \<or> (0 \<le> lastSentenceBreak st \<and> lastSentenceBreak st < int (length (currentWords st)))"

text \<open>The chunks emitted so far are the single-space joins of the word groups \<open>gs\<close>, none empty.\<close>

definition groupedAs :: "state \<Rightarrow> jsstring list list \<Rightarrow> bool" where
  "groupedAs st gs \<longleftrightarrow> tweets st = map buildTweet gs \<and> [] \<notin> set gs"

text \<open>A word as the chunks hold it: cut into slices when it is longer than the limit.\<close>

definition expandWord :: "nat \<Rightarrow> jsstring \<Rightarrow> jsstring list" where
  "expandWord maxLength w = (if maxLength < length w then slices maxLength w else [w])"

section \<open>Evaluation on concrete inputs\<close>

lemmas eval_simps =
  str_def isWhiteSpace_def splitWhitespace.simps createTweets_def wordStep_def pushWord_def
  flushTweet_def buildTweet_def trim_def slice_def endsSentence_def partStep_def
  splitLongWord_def splitLongWord_loop.simps Let_def

section \<open>The slicing loop\<close>

lemma slices_Nil [simp]: "slices n [] = []"
  by (simp add: slices.simps)

lemma slices_step: "0 < n \<Longrightarrow> xs \<noteq> [] \<Longrightarrow> slices n xs = take n xs # slices n (drop n xs)"
  by (subst slices.simps) simp

lemma splitLongWord_loop_slices:
  assumes "1 \<le> n"
  shows "splitLongWord_loop w n start parts = Some (parts @ slices n (drop start w))"
proof (induction "length w - start" arbitrary: start parts rule: less_induct)
  case less
  show ?case
  proof (cases "start < length w")
    case True
    have "length w - (start + n) < length w - start"
      using True assms by arith
    from less [OF this]
    have IH: "splitLongWord_loop w n (start + n) (parts @ [slice w start (start + n)])
                = Some ((parts @ [slice w start (start + n)]) @ slices n (drop (start + n) w))" .
    have "drop start w \<noteq> []"
      using True by simp
    then have "slices n (drop start w) = take n (drop start w) # slices n (drop (start + n) w)"
      using assms by (simp add: slices_step add.commute)
    then show ?thesis
      using True IH by (subst splitLongWord_loop.simps) (simp add: slice_def)
  next
    case False
    then show ?thesis
      by (subst splitLongWord_loop.simps) simp
  qed
qed

lemma splitLongWord_slices: "1 \<le> n \<Longrightarrow> splitLongWord w n = Some (slices n w)"
  by (simp add: splitLongWord_def splitLongWord_loop_slices)

lemma concat_slices: "0 < n \<Longrightarrow> concat (slices n xs) = xs"
proof (induction n xs rule: slices.induct)
  case (1 n xs)
  then show ?case
    by (cases "xs = []") (simp_all add: slices_step)
qed

lemma slices_length_bounds:
  "p \<in> set (slices n xs) \<Longrightarrow> 1 \<le> length p \<and> length p \<le> n"
proof (induction n xs rule: slices.induct)
  case (1 n xs)
  show ?case
  proof (cases "n = 0 \<or> xs = []")
    case True
    then show ?thesis using 1(2) by (auto simp: slices.simps)
  next
    case False
    then have "p = take n xs \<or> p \<in> set (slices n (drop n xs))"
      using 1(2) by (simp add: slices_step)
    then show ?thesis
    proof
      assume "p = take n xs"
      then show ?thesis using False by (cases xs) auto
    next
      assume "p \<in> set (slices n (drop n xs))"
      then show ?thesis using 1(1) False by simp
    qed
  qed
qed

lemma slices_butlast_length:
  "p \<in> set (butlast (slices n xs)) \<Longrightarrow> length p = n"
proof (induction n xs rule: slices.induct)
  case (1 n xs)
  show ?case
  proof (cases "n = 0 \<or> xs = []")
    case True
    then show ?thesis using 1(2) by (auto simp: slices.simps)
  next
    case False
    note nz = this
    show ?thesis
    proof (cases "drop n xs = []")
      case True
      then show ?thesis using 1(2) nz by (simp add: slices_step)
    next
      case False
      then have ne: "slices n (drop n xs) \<noteq> []"
        using nz by (simp add: slices_step)
      then have "p = take n xs \<or> p \<in> set (butlast (slices n (drop n xs)))"
        using 1(2) nz by (simp add: slices_step)
      then show ?thesis
      proof
        assume "p = take n xs"
        then show ?thesis using False by simp
      next
        assume "p \<in> set (butlast (slices n (drop n xs)))"
        then show ?thesis using 1(1) nz by simp
      qed
    qed
  qed
qed

lemma slices_nth:
  "i < length (slices n xs) \<Longrightarrow> slices n xs ! i = take n (drop (i * n) xs)"
proof (induction i arbitrary: xs)
  case 0
  then show ?case by (cases "n = 0 \<or> xs = []") (auto simp: slices.simps[of n xs])
next
  case (Suc i)
  have nz: "\<not> (n = 0 \<or> xs = [])"
  proof
    assume "n = 0 \<or> xs = []"
    then have "slices n xs = []" by (simp add: slices.simps)
    with Suc.prems show False by simp
  qed
  then have "slices n xs ! Suc i = slices n (drop n xs) ! i"
    by (simp add: slices_step)
  also have "\<dots> = take n (drop (i * n) (drop n xs))"
    using Suc nz by (simp add: slices_step)
  finally show ?case by (simp add: add.commute)
qed

lemma slices_ne: "0 < n \<Longrightarrow> xs \<noteq> [] \<Longrightarrow> slices n xs \<noteq> []"
  by (simp add: slices_step)

lemma length_slices: "0 < n \<Longrightarrow> length (slices n xs) = (length xs + n - 1) div n"
proof (induction n xs rule: slices.induct)
  case (1 n xs)
  show ?case
  proof (cases "xs = []")
    case True
    then show ?thesis using 1(2) by simp
  next
    case False
    then have l: "0 < length xs" by simp
    have "length (slices n xs) = Suc ((length xs - n + n - 1) div n)"
      using 1 False by (simp add: slices_step)
    also have "\<dots> = (length xs + n - 1) div n"
    proof -
      have eq: "length xs + n - 1 = (length xs - 1) + n"
        using l by arith
      have r: "(length xs + n - 1) div n = (length xs - 1) div n + 1"
        using 1(2) by (simp only: eq div_add_self2)
      show ?thesis
      proof (cases "n \<le> length xs")
        case True
        then show ?thesis using r by simp
      next
        case False
        then have "length xs - n + n - 1 = n - 1" and "length xs - 1 < n"
          by arith+
        then show ?thesis using r 1(2) by simp
      qed
    qed
    finally show ?thesis .
  qed
qed

text \<open>
  C7. For \<open>maxLength \<ge> 1\<close>, \<open>splitLongWord\<close> returns, and what it returns are the
  consecutive slices of width \<open>maxLength\<close> of the word, left to right: part \<open>i\<close> is
  \<open>word.slice(i * maxLength, i * maxLength + maxLength)\<close>, every part but the last has
  exactly \<open>maxLength\<close> code units, the last part of a non-empty word has between \<open>1\<close> and
  \<open>maxLength\<close>, and the parts concatenated give the word back.
\<close>

theorem splitLongWord_fixed_width:
  assumes "1 \<le> maxLength"
  shows "\<exists>parts. splitLongWord w maxLength = Some parts
           \<and> concat parts = w
           \<and> (\<forall>i < length parts. parts ! i = slice w (i * maxLength) (i * maxLength + maxLength))
           \<and> (\<forall>p \<in> set (butlast parts). length p = maxLength)
           \<and> (w \<noteq> [] \<longrightarrow> parts \<noteq> [] \<and> 1 \<le> length (last parts) \<and> length (last parts) \<le> maxLength)
           \<and> length parts = (length w + maxLength - 1) div maxLength"
proof -
  have pos: "0 < maxLength"
    using assms by simp
  have "w \<noteq> [] \<longrightarrow> slices maxLength w \<noteq> []
          \<and> 1 \<le> length (last (slices maxLength w)) \<and> length (last (slices maxLength w)) \<le> maxLength"
  proof
    assume "w \<noteq> []"
    then have ne: "slices maxLength w \<noteq> []"
      using pos by (rule slices_ne [rotated])
    then have "last (slices maxLength w) \<in> set (slices maxLength w)"
      by simp
    then show "slices maxLength w \<noteq> []
          \<and> 1 \<le> length (last (slices maxLength w)) \<and> length (last (slices maxLength w)) \<le> maxLength"
      using ne slices_length_bounds by blast
  qed
  moreover have "\<forall>i < length (slices maxLength w).
      slices maxLength w ! i = slice w (i * maxLength) (i * maxLength + maxLength)"
    by (simp add: slices_nth slice_def)
  moreover have "\<forall>p \<in> set (butlast (slices maxLength w)). length p = maxLength"
    using slices_butlast_length by blast
  ultimately show ?thesis
    using splitLongWord_slices [OF assms, of w] concat_slices [OF pos, of w]
      length_slices [OF pos, of w] by simp
qed

theorem splitLongWord_fixed_width_witness:
  "(1::nat) \<le> 3 \<and> splitLongWord (str ''abcdefg'') 3 = Some [str ''abc'', str ''def'', str ''g'']"
  using splitLongWord_fixed_width [of 3 "str ''abcdefg''"]
  by (simp add: eval_simps)

section \<open>The steps of createTweets as total functions\<close>

lemma wordStep_eq:
  assumes "1 \<le> n"
  shows "wordStep n st w =
     Some (if length (buildTweet (currentWords st @ [w])) \<le> n then pushWord w st
           else if n < length w then forEachPart n (slices n w) 0 (flushTweet st)
           else pushWord w (flushTweet st))"
  using assms by (simp add: wordStep_def Let_def splitLongWord_slices buildTweet_def)

lemma forEachWord_total:
  assumes "1 \<le> n"
  shows "\<exists>st'. forEachWord n ws st = Some st'"
proof (induction ws arbitrary: st)
  case Nil
  show ?case by simp
next
  case (Cons w ws)
  obtain st1 where "wordStep n st w = Some st1"
    using wordStep_eq [OF assms] by blast
  then show ?case
    using Cons [of st1] by simp
qed

section \<open>The sentence break is never below -1\<close>

text \<open>
  \<open>lastSentenceBreak\<close> is only ever assigned \<open>-1\<close> or the last index of a buffer that has
  just been pushed to, so \<open>lastSentenceBreak + 1\<close> is never negative where
  \<open>flushTweet\<close> passes it to \<open>slice\<close>.
\<close>

lemma lastSentenceBreak_pushWord:
  "- 1 \<le> lastSentenceBreak st \<Longrightarrow> - 1 \<le> lastSentenceBreak (pushWord w st)"
  by (simp add: pushWord_def)

lemma lastSentenceBreak_flushTweet: "lastSentenceBreak (flushTweet st) = - 1"
  by (simp add: flushTweet_def Let_def)

lemma lastSentenceBreak_partStep:
  "- 1 \<le> lastSentenceBreak st \<Longrightarrow> - 1 \<le> lastSentenceBreak (partStep n p idx st)"
  by (simp add: partStep_def Let_def)

lemma lastSentenceBreak_forEachPart:
  "- 1 \<le> lastSentenceBreak st \<Longrightarrow> - 1 \<le> lastSentenceBreak (forEachPart n ps idx st)"
  by (induction ps arbitrary: idx st) (simp_all add: lastSentenceBreak_partStep)

lemma lastSentenceBreak_wordStep:
  assumes "1 \<le> n" and "- 1 \<le> lastSentenceBreak st" and "wordStep n st w = Some st'"
  shows "- 1 \<le> lastSentenceBreak st'"
  using assms(2,3) unfolding wordStep_eq [OF assms(1)]
  by (auto simp: lastSentenceBreak_pushWord lastSentenceBreak_flushTweet
      lastSentenceBreak_forEachPart split: if_splits)

lemma lastSentenceBreak_forEachWord:
  assumes "1 \<le> n"
  shows "- 1 \<le> lastSentenceBreak st \<Longrightarrow> forEachWord n ws st = Some st'
    \<Longrightarrow> - 1 \<le> lastSentenceBreak st'"
proof (induction ws arbitrary: st)
  case Nil
  then show ?case by simp
next
  case (Cons w ws)
  obtain st1 where s1: "wordStep n st w = Some st1"
    using wordStep_eq [OF assms] by blast
  have "- 1 \<le> lastSentenceBreak st1"
    using lastSentenceBreak_wordStep [OF assms Cons.prems(1) s1] .
  then show ?case
    using Cons s1 by simp
qed

text \<open>
  C8. For \<open>maxLength \<ge> 1\<close>, \<open>createTweets\<close> returns on every text, and so does the
  slicing loop of \<open>splitLongWord\<close> on every word (its start index grows by
  \<open>maxLength\<close> at each turn). The model has no error branch: the source has no
  \<open>throw\<close> and no operation that raises.
\<close>

theorem createTweets_terminates:
  assumes "1 \<le> maxLength"
  shows "(\<exists>chunks. createTweets text maxLength = Some chunks)
       \<and> (\<exists>parts. splitLongWord word maxLength = Some parts)"
proof -
  obtain st where "forEachWord maxLength (splitWhitespace text)
      \<lparr>tweets = [], currentWords = [], lastSentenceBreak = - 1\<rparr> = Some st"
    using forEachWord_total [OF assms] by blast
  then have "\<exists>chunks. createTweets text maxLength = Some chunks"
    by (simp add: createTweets_def)
  then show ?thesis
    using splitLongWord_slices [OF assms] by simp
qed

theorem createTweets_terminates_witness:
  "(1::nat) \<le> 4
   \<and> (\<exists>chunks. createTweets (str ''One two. Threefourfive six'') 4 = Some chunks)
   \<and> (\<exists>parts. splitLongWord (str ''Threefourfive'') 4 = Some parts)"
  using createTweets_terminates [of 4 "str ''One two. Threefourfive six''" "str ''Threefourfive''"]
  by simp

section \<open>Edges of chunks\<close>

lemma spaceFree_iff: "spaceFree w \<longleftrightarrow> (\<forall>c \<in> set w. \<not> isWhiteSpace c)"
  by (simp add: spaceFree_def list_all_iff)

lemma noEdgeSpace_trim: "noEdgeSpace (trim s)"
proof -
  define t where "t = dropWhile isWhiteSpace s"
  define u where "u = rev (dropWhile isWhiteSpace (rev t))"
  have "t = rev (takeWhile isWhiteSpace (rev t) @ dropWhile isWhiteSpace (rev t))"
    by simp
  also have "\<dots> = u @ rev (takeWhile isWhiteSpace (rev t))"
    by (simp only: rev_append u_def)
  finally have split: "t = u @ rev (takeWhile isWhiteSpace (rev t))" .
  have "u \<noteq> [] \<Longrightarrow> \<not> isWhiteSpace (hd u) \<and> \<not> isWhiteSpace (last u)"
  proof -
    assume ne: "u \<noteq> []"
    then have tne: "t \<noteq> []" using split by auto
    have "hd t = hd u" using split ne by (metis hd_append2)
    moreover have "\<not> isWhiteSpace (hd t)"
      using tne hd_dropWhile [of isWhiteSpace s] by (simp add: t_def)
    moreover have "last u = hd (dropWhile isWhiteSpace (rev t))"
      using ne by (simp add: u_def last_rev)
    moreover have "\<not> isWhiteSpace (hd (dropWhile isWhiteSpace (rev t)))"
      using ne hd_dropWhile [of isWhiteSpace "rev t"] by (simp add: u_def)
    ultimately show ?thesis by simp
  qed
  then show ?thesis
    by (auto simp: noEdgeSpace_def trim_def t_def u_def)
qed

lemma spaceFree_noEdgeSpace: "spaceFree w \<Longrightarrow> noEdgeSpace w"
  by (cases w) (auto simp: spaceFree_iff noEdgeSpace_def)

lemma spaceFree_slices:
  assumes "spaceFree w" and "p \<in> set (slices n w)"
  shows "spaceFree p"
proof -
  have "0 < n"
    using assms(2) by (cases "n = 0") (simp_all add: slices.simps)
  then have "concat (slices n w) = w"
    by (rule concat_slices)
  then have "set p \<subseteq> set w"
    using assms(2) by (metis Sup_upper image_eqI set_concat)
  then show ?thesis
    using assms(1) by (auto simp: spaceFree_iff)
qed

lemma splitWhitespace_spaceFree_eq: "spaceFree s \<Longrightarrow> splitWhitespace s = [s]"
proof -
  assume "spaceFree s"
  then have e: "dropWhile (\<lambda>c. \<not> isWhiteSpace c) s = []"
    by (simp add: spaceFree_iff)
  show ?thesis
    by (subst splitWhitespace.simps) (simp only: e list.case)
qed

lemma splitWhitespace_Cons:
  assumes "dropWhile (\<lambda>c. \<not> isWhiteSpace c) s = c # rest"
  shows "splitWhitespace s
    = takeWhile (\<lambda>c. \<not> isWhiteSpace c) s # splitWhitespace (dropWhile isWhiteSpace rest)"
  by (subst splitWhitespace.simps) (simp only: assms list.case)

lemma spaceFree_splitWhitespace: "w \<in> set (splitWhitespace s) \<Longrightarrow> spaceFree w"
proof (induction s rule: splitWhitespace.induct)
  case (1 s)
  show ?case
  proof (cases "dropWhile (\<lambda>c. \<not> isWhiteSpace c) s")
    case Nil
    then have sf: "spaceFree s"
      by (simp add: spaceFree_iff)
    then show ?thesis
      using 1(2) by (simp add: splitWhitespace_spaceFree_eq)
  next
    case (Cons c rest)
    then have "w = takeWhile (\<lambda>c. \<not> isWhiteSpace c) s
        \<or> w \<in> set (splitWhitespace (dropWhile isWhiteSpace rest))"
      using 1(2) by (simp add: splitWhitespace_Cons)
    then show ?thesis
    proof
      assume "w = takeWhile (\<lambda>c. \<not> isWhiteSpace c) s"
      then show ?thesis
        by (auto simp: spaceFree_iff dest: set_takeWhileD)
    next
      assume "w \<in> set (splitWhitespace (dropWhile isWhiteSpace rest))"
      then show ?thesis using 1(1) Cons by simp
    qed
  qed
qed

lemma trimmedTweets_pushWord: "trimmedTweets st \<Longrightarrow> trimmedTweets (pushWord w st)"
  by (simp add: trimmedTweets_def pushWord_def)

lemma trimmedTweets_flushTweet: "trimmedTweets st \<Longrightarrow> trimmedTweets (flushTweet st)"
  by (simp add: trimmedTweets_def flushTweet_def Let_def noEdgeSpace_trim)

lemma trimmedTweets_partStep:
  "trimmedTweets st \<Longrightarrow> noEdgeSpace p \<Longrightarrow> trimmedTweets (partStep n p idx st)"
  by (simp add: trimmedTweets_def partStep_def Let_def noEdgeSpace_trim)

lemma trimmedTweets_forEachPart:
  "trimmedTweets st \<Longrightarrow> \<forall>p \<in> set ps. noEdgeSpace p \<Longrightarrow> trimmedTweets (forEachPart n ps idx st)"
  by (induction ps arbitrary: idx st) (simp_all add: trimmedTweets_partStep)

lemma trimmedTweets_wordStep:
  assumes "1 \<le> n" and "trimmedTweets st" and "spaceFree w" and "wordStep n st w = Some st'"
  shows "trimmedTweets st'"
proof -
  have "\<forall>p \<in> set (slices n w). noEdgeSpace p"
    using assms(3) spaceFree_slices spaceFree_noEdgeSpace by blast
  then have "trimmedTweets (forEachPart n (slices n w) 0 (flushTweet st))"
    using assms(2) by (simp add: trimmedTweets_forEachPart trimmedTweets_flushTweet)
  then show ?thesis
    using assms(2,4) unfolding wordStep_eq [OF assms(1)]
    by (auto simp: trimmedTweets_pushWord trimmedTweets_flushTweet split: if_splits)
qed

lemma trimmedTweets_forEachWord:
  assumes "1 \<le> n"
  shows "trimmedTweets st \<Longrightarrow> \<forall>w \<in> set ws. spaceFree w \<Longrightarrow> forEachWord n ws st = Some st'
    \<Longrightarrow> trimmedTweets st'"
proof (induction ws arbitrary: st)
  case Nil
  then show ?case by simp
next
  case (Cons w ws)
  obtain st1 where s1: "wordStep n st w = Some st1"
    using wordStep_eq [OF assms] by blast
  have "trimmedTweets st1"
    using trimmedTweets_wordStep [OF assms _ _ s1] Cons.prems by simp
  then show ?case
    using Cons s1 by simp
qed

text \<open>
  C10. For \<open>maxLength \<ge> 1\<close>, no chunk that \<open>createTweets\<close> returns begins or ends with
  white space: a chunk joined from buffered words is trimmed when emitted, and a part of a
  long word is a slice of a word, which holds no white space.
\<close>

theorem createTweets_no_edge_space:
  assumes "1 \<le> maxLength"
  shows "\<exists>chunks. createTweets text maxLength = Some chunks \<and> (\<forall>t \<in> set chunks. noEdgeSpace t)"
proof -
  let ?init = "\<lparr>tweets = [], currentWords = [], lastSentenceBreak = - 1\<rparr>"
  obtain st where st: "forEachWord maxLength (splitWhitespace text) ?init = Some st"
    using forEachWord_total [OF assms] by blast
  have "trimmedTweets ?init"
    by (simp add: trimmedTweets_def)
  then have "trimmedTweets st"
    using trimmedTweets_forEachWord [OF assms _ _ st] spaceFree_splitWhitespace by blast
  then show ?thesis
    using st by (simp add: createTweets_def trimmedTweets_def noEdgeSpace_trim)
qed

theorem createTweets_no_edge_space_witness:
  "(1::nat) \<le> 6
   \<and> (\<exists>chunks. createTweets (str ''  Hello.  big wide-world '') 6 = Some chunks
         \<and> (\<forall>t \<in> set chunks. noEdgeSpace t))"
  using createTweets_no_edge_space [of 6 "str ''  Hello.  big wide-world ''"]
  by simp

section \<open>Words of a string\<close>

lemma isWhiteSpace_space [simp]: "isWhiteSpace 0x20"
  by (simp add: isWhiteSpace_def)

lemma splitWhitespace_word_space:
  assumes "spaceFree w" and "isWhiteSpace c"
  shows "splitWhitespace (w @ c # rest) = w # splitWhitespace (dropWhile isWhiteSpace rest)"
proof -
  have w: "\<And>x. x \<in> set w \<Longrightarrow> \<not> isWhiteSpace x"
    using assms(1) by (simp add: spaceFree_iff)
  have d: "dropWhile (\<lambda>c. \<not> isWhiteSpace c) (w @ c # rest) = c # rest"
    using w assms(2) by (simp add: dropWhile_append2)
  have t: "takeWhile (\<lambda>c. \<not> isWhiteSpace c) (w @ c # rest) = w"
    using w assms(2) by (simp add: takeWhile_append2)
  show ?thesis
    using splitWhitespace_Cons [OF d] t by simp
qed

lemma wordsOf_spaceFree: "spaceFree w \<Longrightarrow> wordsOf w = (if w = [] then [] else [w])"
  by (simp add: wordsOf_def splitWhitespace_spaceFree_eq)

lemma wordsOf_Nil [simp]: "wordsOf [] = []"
  by (simp add: wordsOf_spaceFree spaceFree_def)

lemma wordsOf_space_Cons: "isWhiteSpace c \<Longrightarrow> wordsOf (c # s) = wordsOf (dropWhile isWhiteSpace s)"
  using splitWhitespace_word_space [of "[]" c s] by (simp add: wordsOf_def spaceFree_def)

lemma wordsOf_dropWhile: "wordsOf (dropWhile isWhiteSpace s) = wordsOf s"
  by (induction s) (simp_all add: wordsOf_space_Cons)

lemma wordsOf_word_space:
  assumes "spaceFree w" and "isWhiteSpace c"
  shows "wordsOf (w @ c # rest) = (if w = [] then [] else [w]) @ wordsOf rest"
proof -
  have "wordsOf (w @ c # rest) = (if w = [] then [] else [w]) @ wordsOf (dropWhile isWhiteSpace rest)"
    using splitWhitespace_word_space [OF assms] by (simp add: wordsOf_def)
  then show ?thesis
    by (simp only: wordsOf_dropWhile)
qed

lemma split_at_first_space:
  assumes "dropWhile (\<lambda>c. \<not> isWhiteSpace c) s = c # rest"
  shows "s = takeWhile (\<lambda>c. \<not> isWhiteSpace c) s @ c # rest"
    and "spaceFree (takeWhile (\<lambda>c. \<not> isWhiteSpace c) s)"
    and "isWhiteSpace c"
    and "length rest < length s"
proof -
  show s: "s = takeWhile (\<lambda>c. \<not> isWhiteSpace c) s @ c # rest"
    using takeWhile_dropWhile_id [of "\<lambda>c. \<not> isWhiteSpace c" s] assms by simp
  show "spaceFree (takeWhile (\<lambda>c. \<not> isWhiteSpace c) s)"
    by (auto simp: spaceFree_iff dest: set_takeWhileD)
  show "isWhiteSpace c"
    using hd_dropWhile [of "\<lambda>c. \<not> isWhiteSpace c" s] assms by simp
  have "length s = length (takeWhile (\<lambda>c. \<not> isWhiteSpace c) s @ c # rest)"
    using s by simp
  then show "length rest < length s"
    by simp
qed

lemma wordsOf_append_space:
  assumes "isWhiteSpace c"
  shows "wordsOf (a @ c # b) = wordsOf a @ wordsOf b"
proof (induction "length a" arbitrary: a rule: less_induct)
  case less
  show ?case
  proof (cases "dropWhile (\<lambda>c. \<not> isWhiteSpace c) a")
    case Nil
    then have "spaceFree a"
      by (simp add: spaceFree_iff)
    then show ?thesis
      using assms by (simp add: wordsOf_word_space wordsOf_spaceFree)
  next
    case (Cons c' rest)
    note parts = split_at_first_space [OF Cons]
    define w where "w = takeWhile (\<lambda>c. \<not> isWhiteSpace c) a"
    have a: "a = w @ c' # rest" and w: "spaceFree w"
      using parts(1,2) by (simp_all add: w_def)
    have "wordsOf (a @ c # b) = wordsOf (w @ c' # (rest @ c # b))"
      by (subst a) simp
    also have "\<dots> = (if w = [] then [] else [w]) @ wordsOf (rest @ c # b)"
      using w parts(3) by (rule wordsOf_word_space)
    also have "wordsOf (rest @ c # b) = wordsOf rest @ wordsOf b"
      using parts(4) by (rule less)
    also have "(if w = [] then [] else [w]) @ wordsOf rest @ wordsOf b = wordsOf (w @ c' # rest) @ wordsOf b"
      using w parts(3) by (simp add: wordsOf_word_space)
    finally show ?thesis
      using a by simp
  qed
qed

lemma wordsOf_all_space: "\<forall>c \<in> set t. isWhiteSpace c \<Longrightarrow> wordsOf t = []"
  by (induction t) (simp_all add: wordsOf_space_Cons wordsOf_dropWhile)

lemma wordsOf_append_spaces:
  assumes "\<forall>c \<in> set t. isWhiteSpace c"
  shows "wordsOf (s @ t) = wordsOf s"
proof (cases t)
  case Nil
  then show ?thesis by simp
next
  case (Cons c t')
  then have "isWhiteSpace c" and "wordsOf t' = []"
    using assms by (simp_all add: wordsOf_all_space)
  then show ?thesis
    using Cons by (simp add: wordsOf_append_space)
qed

lemma wordsOf_trim: "wordsOf (trim s) = wordsOf s"
proof -
  define t where "t = dropWhile isWhiteSpace s"
  have "t = rev (takeWhile isWhiteSpace (rev t) @ dropWhile isWhiteSpace (rev t))"
    by simp
  also have "\<dots> = trim s @ rev (takeWhile isWhiteSpace (rev t))"
    by (simp only: rev_append trim_def t_def)
  finally have "wordsOf t = wordsOf (trim s @ rev (takeWhile isWhiteSpace (rev t)))"
    by simp
  also have "\<dots> = wordsOf (trim s)"
    by (rule wordsOf_append_spaces) (auto dest: set_takeWhileD)
  finally show ?thesis
    by (simp add: t_def wordsOf_dropWhile)
qed

lemma wordsOf_buildTweet:
  "\<forall>w \<in> set ws. spaceFree w \<Longrightarrow> wordsOf (buildTweet ws) = filter (\<lambda>w. w \<noteq> []) ws"
  unfolding buildTweet_def
proof (induction "[0x20::nat]" ws rule: join.induct)
  case 1
  show ?case by simp
next
  case (2 x)
  then show ?case by (simp add: wordsOf_spaceFree)
next
  case (3 x y ys)
  then show ?case by (simp add: wordsOf_word_space)
qed

lemma wordsOf_emitted:
  "\<forall>w \<in> set ws. spaceFree w \<Longrightarrow> wordsOf (trim (buildTweet ws)) = filter (\<lambda>w. w \<noteq> []) ws"
  by (simp add: wordsOf_trim wordsOf_buildTweet)

lemma wordsOf_join_chunks: "wordsOf (join [0x20] chunks) = concat (map wordsOf chunks)"
proof (induction "[0x20::nat]" chunks rule: join.induct)
  case 1
  show ?case by simp
next
  case (2 x)
  show ?case by simp
next
  case (3 x y ys)
  then show ?case by (simp add: wordsOf_append_space)
qed


section \<open>Coverage of the words\<close>

lemma length_buildTweet_snoc: "length w \<le> length (buildTweet (ws @ [w]))"
  unfolding buildTweet_def
  by (induction "[0x20::nat]" ws rule: join.induct) simp_all

lemma coveredWords_pushWord:
  "spaceFree w \<Longrightarrow> coveredWords (pushWord w st) = coveredWords st @ (if w = [] then [] else [w])"
  by (simp add: coveredWords_def pushWord_def)

lemma currentWords_pushWord: "currentWords (pushWord w st) = currentWords st @ [w]"
  by (simp add: pushWord_def)

lemma filter_take_drop:
  "filter P (take k xs) @ filter P (drop k xs) = filter P xs"
  by (simp only: filter_append [symmetric] append_take_drop_id)

lemma coveredWords_flushTweet:
  assumes "\<forall>w \<in> set (currentWords st). spaceFree w"
  shows "coveredWords (flushTweet st) = coveredWords st"
proof -
  have "\<forall>w \<in> set (take k (currentWords st)). spaceFree w" for k
    using assms by (auto dest: in_set_takeD)
  then show ?thesis
    using assms
    by (simp add: coveredWords_def flushTweet_def Let_def slice_def wordsOf_emitted filter_take_drop)
qed

lemma currentWords_flushTweet: "set (currentWords (flushTweet st)) \<subseteq> set (currentWords st)"
  by (auto simp: flushTweet_def Let_def dest: in_set_dropD)

lemma coveredWords_partStep:
  assumes "\<forall>w \<in> set (currentWords st). spaceFree w" and "spaceFree p" and "p \<noteq> []"
  shows "coveredWords (partStep n p idx st) = coveredWords st @ [p]"
    and "\<forall>w \<in> set (currentWords (partStep n p idx st)). spaceFree w"
  using assms
  by (simp_all add: coveredWords_def partStep_def Let_def wordsOf_emitted wordsOf_spaceFree)

lemma coveredWords_forEachPart:
  assumes "\<forall>p \<in> set ps. spaceFree p \<and> p \<noteq> []"
  shows "\<forall>w \<in> set (currentWords st). spaceFree w \<Longrightarrow>
     coveredWords (forEachPart n ps idx st) = coveredWords st @ ps
     \<and> (\<forall>w \<in> set (currentWords (forEachPart n ps idx st)). spaceFree w)"
  using assms
proof (induction ps arbitrary: idx st)
  case Nil
  then show ?case by simp
next
  case (Cons p ps)
  have p: "spaceFree p" "p \<noteq> []"
    using Cons.prems(2) by simp_all
  note step = coveredWords_partStep [OF Cons.prems(1) p]
  have "coveredWords (forEachPart n ps (idx + 1) (partStep n p idx st))
          = coveredWords (partStep n p idx st) @ ps
        \<and> (\<forall>w \<in> set (currentWords (forEachPart n ps (idx + 1) (partStep n p idx st))). spaceFree w)"
    using Cons.prems(2) by (intro Cons.IH step(2)) simp
  then show ?case
    by (simp add: step(1))
qed

lemma slices_parts:
  assumes "spaceFree w"
  shows "\<forall>p \<in> set (slices n w). spaceFree p \<and> p \<noteq> []"
proof
  fix p
  assume p: "p \<in> set (slices n w)"
  then have "1 \<le> length p"
    using slices_length_bounds by blast
  then show "spaceFree p \<and> p \<noteq> []"
    using spaceFree_slices [OF assms p] by auto
qed

lemma coveredWords_wordStep:
  assumes n: "1 \<le> n"
    and cw: "\<forall>w \<in> set (currentWords st). spaceFree w"
    and w: "spaceFree w"
    and step: "wordStep n st w = Some st'"
  shows "coveredWords st' = coveredWords st @ (if w = [] then [] else expandWord n w)"
    and "\<forall>w \<in> set (currentWords st'). spaceFree w"
proof -
  have fl: "\<forall>w \<in> set (currentWords (flushTweet st)). spaceFree w"
    using cw currentWords_flushTweet by blast
  note parts = coveredWords_forEachPart [OF slices_parts [OF w] fl, of n n 0]
  note cov = coveredWords_flushTweet [OF cw]
  consider (fits) "length (buildTweet (currentWords st @ [w])) \<le> n"
    | (long) "\<not> length (buildTweet (currentWords st @ [w])) \<le> n" "n < length w"
    | (fresh) "\<not> length (buildTweet (currentWords st @ [w])) \<le> n" "\<not> n < length w"
    by blast
  then have "coveredWords st' = coveredWords st @ (if w = [] then [] else expandWord n w)
    \<and> (\<forall>w \<in> set (currentWords st'). spaceFree w)"
  proof cases
    case fits
    then have "st' = pushWord w st"
      using step by (simp add: wordStep_eq [OF n])
    moreover have "\<not> n < length w"
      using fits length_buildTweet_snoc [of w "currentWords st"] by simp
    ultimately show ?thesis
      using cw w by (simp add: coveredWords_pushWord currentWords_pushWord expandWord_def)
  next
    case long
    then have "st' = forEachPart n (slices n w) 0 (flushTweet st)"
      using step by (simp add: wordStep_eq [OF n])
    then show ?thesis
      using parts cov long(2) by (auto simp: expandWord_def)
  next
    case fresh
    then have "st' = pushWord w (flushTweet st)"
      using step by (simp add: wordStep_eq [OF n])
    then show ?thesis
      using fl w cov fresh(2) by (simp add: coveredWords_pushWord currentWords_pushWord expandWord_def)
  qed
  then show "coveredWords st' = coveredWords st @ (if w = [] then [] else expandWord n w)"
    and "\<forall>w \<in> set (currentWords st'). spaceFree w"
    by simp_all
qed

lemma coveredWords_forEachWord:
  assumes n: "1 \<le> n"
  shows "\<forall>w \<in> set (currentWords st). spaceFree w \<Longrightarrow> \<forall>w \<in> set ws. spaceFree w
    \<Longrightarrow> forEachWord n ws st = Some st'
    \<Longrightarrow> coveredWords st' = coveredWords st @ concat (map (expandWord n) (filter (\<lambda>w. w \<noteq> []) ws))
      \<and> (\<forall>w \<in> set (currentWords st'). spaceFree w)"
proof (induction ws arbitrary: st)
  case Nil
  then show ?case by simp
next
  case (Cons w ws)
  obtain st1 where s1: "wordStep n st w = Some st1"
    using wordStep_eq [OF n] by blast
  have w: "spaceFree w"
    using Cons.prems(2) by simp
  note step = coveredWords_wordStep [OF n Cons.prems(1) w s1]
  have "coveredWords st' = coveredWords st1 @ concat (map (expandWord n) (filter (\<lambda>w. w \<noteq> []) ws))
      \<and> (\<forall>w \<in> set (currentWords st'). spaceFree w)"
    using Cons.prems(2,3) s1 by (intro Cons.IH step(2)) simp_all
  then show ?case
    by (simp add: step(1))
qed

text \<open>
  C2, at an input where it fails. With \<open>maxLength = 5\<close> the text \<open>ab cd efghij\<close> gives the
  chunks \<open>ab cd\<close>, \<open>efghi\<close>, \<open>j\<close>. Their words in order are \<open>ab\<close>, \<open>cd\<close>, \<open>efghi\<close>, \<open>j\<close>
  (the same when the chunks are joined by single spaces), and the chunks concatenated with
  no separator read \<open>ab\<close>, \<open>cdefghij\<close>; the words of the input are \<open>ab\<close>, \<open>cd\<close>, \<open>efghij\<close>.
\<close>

theorem createTweets_words_counterexample:
  "createTweets (str ''ab cd efghij'') 5 = Some [str ''ab cd'', str ''efghi'', str ''j'']
   \<and> wordsOf (str ''ab cd efghij'') = [str ''ab'', str ''cd'', str ''efghij'']
   \<and> concat (map wordsOf [str ''ab cd'', str ''efghi'', str ''j''])
       = [str ''ab'', str ''cd'', str ''efghi'', str ''j'']
   \<and> wordsOf (join [0x20] [str ''ab cd'', str ''efghi'', str ''j''])
       = [str ''ab'', str ''cd'', str ''efghi'', str ''j'']
   \<and> wordsOf (concat [str ''ab cd'', str ''efghi'', str ''j'']) = [str ''ab'', str ''cdefghij'']
   \<and> [str ''ab'', str ''cd'', str ''efghi'', str ''j''] \<noteq> [str ''ab'', str ''cd'', str ''efghij'']
   \<and> [str ''ab'', str ''cdefghij''] \<noteq> [str ''ab'', str ''cd'', str ''efghij'']"
  by (simp add: eval_simps wordsOf_def)

text \<open>
  C2, amended. For \<open>maxLength \<ge> 1\<close>, the words of the chunks, taken chunk after chunk
  (equally: the words of the chunks joined by single spaces), are the words of the input
  in order, where every word longer than \<open>maxLength\<close> stands as its consecutive slices of
  width \<open>maxLength\<close>. No code unit of a word is dropped or repeated.
\<close>

theorem createTweets_covers_words:
  assumes "1 \<le> maxLength"
  shows "\<exists>chunks. createTweets text maxLength = Some chunks
     \<and> concat (map wordsOf chunks) = concat (map (expandWord maxLength) (wordsOf text))
     \<and> wordsOf (join [0x20] chunks) = concat (map (expandWord maxLength) (wordsOf text))"
proof -
  let ?init = "\<lparr>tweets = [], currentWords = [], lastSentenceBreak = - 1\<rparr>"
  obtain st where st: "forEachWord maxLength (splitWhitespace text) ?init = Some st"
    using forEachWord_total [OF assms] by blast
  have "\<forall>w \<in> set (splitWhitespace text). spaceFree w"
    using spaceFree_splitWhitespace by blast
  then have inv: "coveredWords st = coveredWords ?init @ concat (map (expandWord maxLength) (wordsOf text))
      \<and> (\<forall>w \<in> set (currentWords st). spaceFree w)"
    unfolding wordsOf_def by (intro coveredWords_forEachWord [OF assms _ _ st]) simp
  define chunks where "chunks =
    (if length (currentWords st) > 0 then tweets st @ [trim (buildTweet (currentWords st))]
     else tweets st)"
  have res: "createTweets text maxLength = Some chunks"
    using st by (simp add: createTweets_def chunks_def)
  have "concat (map wordsOf chunks) = coveredWords st"
    using inv by (cases "currentWords st = []") (simp_all add: chunks_def coveredWords_def wordsOf_emitted)
  moreover have "coveredWords ?init = []"
    by (simp add: coveredWords_def)
  ultimately have "concat (map wordsOf chunks) = concat (map (expandWord maxLength) (wordsOf text))"
    using inv by simp
  then show ?thesis
    using res by (simp add: wordsOf_join_chunks)
qed

theorem createTweets_covers_words_witness:
  "(1::nat) \<le> 5
   \<and> (\<exists>chunks. createTweets (str ''ab cd efghij'') 5 = Some chunks
         \<and> concat (map wordsOf chunks)
             = concat (map (expandWord 5) (wordsOf (str ''ab cd efghij'')))
         \<and> wordsOf (join [0x20] chunks)
             = concat (map (expandWord 5) (wordsOf (str ''ab cd efghij''))))"
  using createTweets_covers_words [of 5 "str ''ab cd efghij''"]
  by simp

section \<open>Re-segmentation\<close>

lemma join_append:
  "a \<noteq> [] \<Longrightarrow> b \<noteq> [] \<Longrightarrow> join sep (a @ b) = join sep a @ sep @ join sep b"
proof (induction sep a rule: join.induct)
  case (1 sep)
  then show ?case by simp
next
  case (2 sep x)
  then show ?case by (cases b) simp_all
next
  case (3 sep x y ys)
  then show ?case by simp
qed

lemma buildTweet_groups:
  "[] \<notin> set gs \<Longrightarrow> buildTweet (map buildTweet gs) = buildTweet (concat gs)"
proof (induction gs)
  case Nil
  show ?case by simp
next
  case (Cons g gs)
  show ?case
  proof (cases "gs = []")
    case True
    then show ?thesis by (simp add: buildTweet_def)
  next
    case False
    then have cne: "concat gs \<noteq> []"
      using Cons.prems by (cases gs) auto
    have gne: "g \<noteq> []"
      using Cons.prems by auto
    have "buildTweet (g @ concat gs) = buildTweet g @ [0x20] @ buildTweet (concat gs)"
      unfolding buildTweet_def by (rule join_append [OF gne cne])
    moreover have "buildTweet (buildTweet g # map buildTweet gs)
        = buildTweet g @ [0x20] @ buildTweet (map buildTweet gs)"
      using False by (cases gs) (simp_all add: buildTweet_def)
    ultimately show ?thesis
      using Cons by simp
  qed
qed

lemma hd_buildTweet: "g \<noteq> [] \<Longrightarrow> hd g \<noteq> [] \<Longrightarrow> hd (buildTweet g) = hd (hd g)"
  unfolding buildTweet_def
  by (induction "[0x20::nat]" g rule: join.induct) simp_all

lemma buildTweet_two_ne: "buildTweet (x # y # ys) \<noteq> []"
  by (simp add: buildTweet_def)

lemma last_buildTweet: "g \<noteq> [] \<Longrightarrow> last g \<noteq> [] \<Longrightarrow> last (buildTweet g) = last (last g)"
  unfolding buildTweet_def
proof (induction "[0x20::nat]" g rule: join.induct)
  case 1
  then show ?case by simp
next
  case (2 x)
  then show ?case by simp
next
  case (3 x y ys)
  have "join [0x20] (y # ys) \<noteq> []"
    using 3(3) by (cases ys) simp_all
  then show ?case
    using 3 by simp
qed

lemma goodWord_edges:
  assumes "goodWord n w"
  shows "w \<noteq> []" and "\<not> isWhiteSpace (hd w)" and "\<not> isWhiteSpace (last w)" and "spaceFree w"
  using assms by (auto simp: goodWord_def spaceFree_iff)

lemma noEdgeSpace_buildTweet:
  assumes "g \<noteq> []" and "\<forall>w \<in> set g. goodWord n w"
  shows "noEdgeSpace (buildTweet g)"
proof -
  have "goodWord n (hd g)" and "goodWord n (last g)"
    using assms by simp_all
  then show ?thesis
    using assms(1) by (simp add: noEdgeSpace_def hd_buildTweet last_buildTweet goodWord_edges)
qed

lemma trim_noEdgeSpace: "noEdgeSpace s \<Longrightarrow> trim s = s"
proof (cases "s = []")
  case True
  then show ?thesis by (simp add: trim_def)
next
  case False
  assume "noEdgeSpace s"
  then have "\<not> isWhiteSpace (hd s)" and "\<not> isWhiteSpace (hd (rev s))"
    using False by (simp_all add: noEdgeSpace_def hd_rev)
  then have "dropWhile isWhiteSpace s = s" and "dropWhile isWhiteSpace (rev s) = rev s"
    by (simp_all add: dropWhile_eq_self_iff)
  then show ?thesis
    by (simp add: trim_def)
qed

lemma trim_buildTweet:
  "g \<noteq> [] \<Longrightarrow> \<forall>w \<in> set g. goodWord n w \<Longrightarrow> trim (buildTweet g) = buildTweet g"
  by (rule trim_noEdgeSpace) (rule noEdgeSpace_buildTweet)

lemma splitWhitespace_buildTweet:
  "ws \<noteq> [] \<Longrightarrow> \<forall>w \<in> set ws. goodWord n w \<Longrightarrow> splitWhitespace (buildTweet ws) = ws"
  unfolding buildTweet_def
proof (induction "[0x20::nat]" ws rule: join.induct)
  case 1
  then show ?case by simp
next
  case (2 x)
  then show ?case using goodWord_edges(4) [of n x] by (simp add: splitWhitespace_spaceFree_eq)
next
  case (3 x y ys)
  have "goodWord n y"
    using 3(3) by simp
  then have "\<not> isWhiteSpace (hd (buildTweet (y # ys)))"
    using goodWord_edges(1,2) [of n y] by (simp add: hd_buildTweet)
  then have "dropWhile isWhiteSpace (join [0x20] (y # ys)) = join [0x20] (y # ys)"
    by (simp add: dropWhile_eq_self_iff buildTweet_def)
  moreover have "spaceFree x"
    using 3(3) goodWord_edges(4) [of n x] by simp
  ultimately show ?case
    using 3 by (simp add: splitWhitespace_word_space)
qed

lemma splitWhitespace_no_empty:
  "s \<noteq> [] \<Longrightarrow> noEdgeSpace s \<Longrightarrow> [] \<notin> set (splitWhitespace s)"
proof (induction s rule: splitWhitespace.induct)
  case (1 s)
  have hd: "\<not> isWhiteSpace (hd s)" and last: "\<not> isWhiteSpace (last s)"
    using 1(2,3) by (simp_all add: noEdgeSpace_def)
  show ?case
  proof (cases "dropWhile (\<lambda>c. \<not> isWhiteSpace c) s")
    case Nil
    then have "spaceFree s"
      by (simp add: spaceFree_iff)
    then show ?thesis
      using 1(2) by (simp add: splitWhitespace_spaceFree_eq)
  next
    case (Cons c rest)
    note parts = split_at_first_space [OF Cons]
    define r where "r = dropWhile isWhiteSpace rest"
    have w: "takeWhile (\<lambda>c. \<not> isWhiteSpace c) s \<noteq> []"
      using 1(2) hd by (cases s) simp_all
    have rest: "rest = takeWhile isWhiteSpace rest @ r"
      by (simp add: r_def)
    have r: "r \<noteq> []"
    proof
      assume "r = []"
      then have all: "\<forall>x \<in> set rest. isWhiteSpace x"
        by (simp add: r_def)
      have "last s = last (c # rest)"
        by (subst parts(1)) simp
      then have "isWhiteSpace (last s)"
        using all parts(3) by (cases "rest = []") simp_all
      then show False
        using last by simp
    qed
    then have "rest \<noteq> []"
      by (auto simp: r_def)
    have "last s = last (c # rest)"
      by (subst parts(1)) simp
    also have "\<dots> = last rest"
      using \<open>rest \<noteq> []\<close> by simp
    also have "\<dots> = last r"
      using r by (subst rest) simp
    finally have "\<not> isWhiteSpace (last r)"
      using last by simp
    moreover have "\<not> isWhiteSpace (hd r)"
      using r hd_dropWhile [of isWhiteSpace rest] by (simp add: r_def)
    ultimately have "noEdgeSpace r"
      by (simp add: noEdgeSpace_def)
    then have "[] \<notin> set (splitWhitespace r)"
      using 1(1) [OF Cons] r by (simp add: r_def)
    then show ?thesis
      using w by (simp add: splitWhitespace_Cons [OF Cons] r_def)
  qed
qed

lemma breakInRange_pushWord: "breakInRange st \<Longrightarrow> breakInRange (pushWord w st)"
  by (auto simp: breakInRange_def pushWord_def)

lemma groupedAs_pushWord: "groupedAs st gs \<Longrightarrow> groupedAs (pushWord w st) gs"
  by (simp add: groupedAs_def pushWord_def)

lemma flushTweet_groups:
  assumes br: "breakInRange st" and gr: "groupedAs st gs"
    and cw: "\<forall>x \<in> set (currentWords st). goodWord n x"
  shows "\<exists>gs'. groupedAs (flushTweet st) gs'
      \<and> concat gs' @ currentWords (flushTweet st) = concat gs @ currentWords st
      \<and> lastSentenceBreak (flushTweet st) = - 1
      \<and> (\<forall>x \<in> set (currentWords (flushTweet st)). goodWord n x)"
proof -
  have sub: "\<forall>x \<in> set (currentWords (flushTweet st)). goodWord n x"
    using cw currentWords_flushTweet by blast
  have lsb: "lastSentenceBreak (flushTweet st) = - 1"
    by (simp add: flushTweet_def Let_def)
  consider (cut) "lastSentenceBreak st \<noteq> - 1"
    | (all) "lastSentenceBreak st = - 1" "currentWords st \<noteq> []"
    | (none) "lastSentenceBreak st = - 1" "currentWords st = []"
    by blast
  then have "\<exists>gs'. groupedAs (flushTweet st) gs'
      \<and> concat gs' @ currentWords (flushTweet st) = concat gs @ currentWords st"
  proof cases
    case cut
    define k where "k = nat (lastSentenceBreak st + 1)"
    have k: "0 < k" "k \<le> length (currentWords st)"
      using br cut by (auto simp: breakInRange_def k_def)
    define g where "g = take k (currentWords st)"
    have gne: "g \<noteq> []"
      using k by (auto simp: g_def)
    have "\<forall>x \<in> set g. goodWord n x"
      using cw by (auto simp: g_def dest: in_set_takeD)
    then have "trim (buildTweet g) = buildTweet g"
      using gne trim_buildTweet by blast
    then have "groupedAs (flushTweet st) (gs @ [g])"
      using gr cut gne by (simp add: groupedAs_def flushTweet_def Let_def slice_def g_def k_def)
    moreover have "concat (gs @ [g]) @ currentWords (flushTweet st) = concat gs @ currentWords st"
      using cut by (simp add: flushTweet_def Let_def g_def k_def)
    ultimately show ?thesis by blast
  next
    case all
    have "trim (buildTweet (currentWords st)) = buildTweet (currentWords st)"
      using all(2) cw trim_buildTweet by blast
    then have "groupedAs (flushTweet st) (gs @ [currentWords st])"
      using gr all by (simp add: groupedAs_def flushTweet_def Let_def)
    moreover have "concat (gs @ [currentWords st]) @ currentWords (flushTweet st)
        = concat gs @ currentWords st"
      using all by (simp add: flushTweet_def Let_def)
    ultimately show ?thesis by blast
  next
    case none
    then have "groupedAs (flushTweet st) gs"
      and "concat gs @ currentWords (flushTweet st) = concat gs @ currentWords st"
      using gr by (simp_all add: groupedAs_def flushTweet_def Let_def)
    then show ?thesis by blast
  qed
  then show ?thesis
    using sub lsb by blast
qed

lemma wordStep_groups:
  assumes n: "1 \<le> n" and w: "goodWord n w"
    and br: "breakInRange st" and gr: "groupedAs st gs"
    and cw: "\<forall>x \<in> set (currentWords st). goodWord n x"
    and step: "wordStep n st w = Some st'"
  shows "\<exists>gs'. groupedAs st' gs'
      \<and> concat gs' @ currentWords st' = concat gs @ currentWords st @ [w]
      \<and> breakInRange st'
      \<and> (\<forall>x \<in> set (currentWords st'). goodWord n x)"
proof (cases "length (buildTweet (currentWords st @ [w])) \<le> n")
  case True
  then have "st' = pushWord w st"
    using step by (simp add: wordStep_eq [OF n])
  then have "groupedAs st' gs \<and> concat gs @ currentWords st' = concat gs @ currentWords st @ [w]
      \<and> breakInRange st' \<and> (\<forall>x \<in> set (currentWords st'). goodWord n x)"
    using w br gr cw by (simp add: groupedAs_pushWord breakInRange_pushWord currentWords_pushWord)
  then show ?thesis by blast
next
  case False
  have "\<not> n < length w"
    using w by (simp add: goodWord_def)
  then have st': "st' = pushWord w (flushTweet st)"
    using step False by (simp add: wordStep_eq [OF n])
  obtain gs' where f: "groupedAs (flushTweet st) gs'"
      "concat gs' @ currentWords (flushTweet st) = concat gs @ currentWords st"
      "lastSentenceBreak (flushTweet st) = - 1"
      "\<forall>x \<in> set (currentWords (flushTweet st)). goodWord n x"
    using flushTweet_groups [OF br gr cw] by blast
  have "breakInRange (flushTweet st)"
    using f(3) by (simp add: breakInRange_def)
  then have "groupedAs st' gs' \<and> concat gs' @ currentWords st' = concat gs @ currentWords st @ [w]
      \<and> breakInRange st' \<and> (\<forall>x \<in> set (currentWords st'). goodWord n x)"
    using f w st'
    by (simp add: groupedAs_pushWord breakInRange_pushWord currentWords_pushWord
        append_assoc [symmetric] del: append_assoc)
  then show ?thesis by blast
qed

lemma forEachWord_groups:
  assumes n: "1 \<le> n"
  shows "\<forall>w \<in> set ws. goodWord n w \<Longrightarrow> breakInRange st \<Longrightarrow> groupedAs st gs
    \<Longrightarrow> \<forall>x \<in> set (currentWords st). goodWord n x
    \<Longrightarrow> forEachWord n ws st = Some st'
    \<Longrightarrow> \<exists>gs'. groupedAs st' gs'
          \<and> concat gs' @ currentWords st' = concat gs @ currentWords st @ ws
          \<and> (\<forall>x \<in> set (currentWords st'). goodWord n x)"
proof (induction ws arbitrary: st gs)
  case Nil
  then show ?case by auto
next
  case (Cons w ws)
  obtain st1 where s1: "wordStep n st w = Some st1"
    using wordStep_eq [OF n] by blast
  have w: "goodWord n w"
    using Cons.prems(1) by simp
  obtain gs1 where g1: "groupedAs st1 gs1"
      "concat gs1 @ currentWords st1 = concat gs @ currentWords st @ [w]"
      "breakInRange st1"
      "\<forall>x \<in> set (currentWords st1). goodWord n x"
    using wordStep_groups [OF n w Cons.prems(2,3,4) s1] by blast
  have rest: "forEachWord n ws st1 = Some st'"
    using Cons.prems(5) s1 by simp
  have "\<forall>w \<in> set ws. goodWord n w"
    using Cons.prems(1) by simp
  from Cons.IH [OF this g1(3) g1(1) g1(4) rest]
  obtain gs' where "groupedAs st' gs'"
      "concat gs' @ currentWords st' = concat gs1 @ currentWords st1 @ ws"
      "\<forall>x \<in> set (currentWords st'). goodWord n x"
    by blast
  then show ?case
    using g1(2) by (metis append_Cons append_Nil append_assoc)
qed

text \<open>
  A text that begins with white space is split into an empty first word, which takes a
  place in the buffer: with \<open>maxLength = 4\<close> the text \<open>" ab c"\<close> gives \<open>ab\<close>, \<open>c\<close>, and the
  join \<open>ab c\<close> of these gives the one chunk \<open>ab c\<close>.
\<close>

lemma createTweets_leading_space_unstable:
  "createTweets (str '' ab c'') 4 = Some [str ''ab'', str ''c'']
   \<and> createTweets (join [0x20] [str ''ab'', str ''c'']) 4 = Some [str ''ab c'']"
  by (simp add: eval_simps)

text \<open>
  C6, at an input where it fails. With \<open>maxLength = 5\<close> the text \<open>abcdefg hi\<close> gives the
  chunks \<open>abcde\<close>, \<open>fg\<close>, \<open>hi\<close>, of lengths 5, 2 and 2: the parts of the long word are
  chunks of their own and \<open>hi\<close> starts a new one. Their single-space join is
  \<open>abcde fg hi\<close>, where \<open>fg\<close> is an ordinary word, and on it the result is \<open>abcde\<close>, \<open>fg hi\<close>.
\<close>

theorem createTweets_stable_counterexample:
  "createTweets (str ''abcdefg hi'') 5 = Some [str ''abcde'', str ''fg'', str ''hi'']
   \<and> map length [str ''abcde'', str ''fg'', str ''hi''] = [5, 2, 2]
   \<and> join [0x20] [str ''abcde'', str ''fg'', str ''hi''] = str ''abcde fg hi''
   \<and> createTweets (str ''abcde fg hi'') 5 = Some [str ''abcde'', str ''fg hi'']
   \<and> [str ''abcde'', str ''fg hi''] \<noteq> [str ''abcde'', str ''fg'', str ''hi'']"
  by (simp add: eval_simps)

text \<open>
  C6, amended. For \<open>maxLength \<ge> 1\<close> and a text that is not empty, neither begins nor ends
  with white space and has no word longer than \<open>maxLength\<close>, running \<open>createTweets\<close> again on
  the single-space join of its chunks returns the same chunks. (Nothing is asked of the
  lengths of the chunks.)
\<close>

theorem createTweets_stable:
  assumes n: "1 \<le> maxLength"
    and ne: "text \<noteq> []"
    and edges: "noEdgeSpace text"
    and short: "\<forall>w \<in> set (wordsOf text). length w \<le> maxLength"
  shows "\<exists>chunks. createTweets text maxLength = Some chunks
           \<and> createTweets (join [0x20] chunks) maxLength = Some chunks"
proof -
  let ?init = "\<lparr>tweets = [], currentWords = [], lastSentenceBreak = - 1\<rparr>"
  define ws where "ws = splitWhitespace text"
  have noempty: "[] \<notin> set ws"
    using ne edges unfolding ws_def by (rule splitWhitespace_no_empty)
  then have "wordsOf text = ws"
    by (simp add: wordsOf_def ws_def filter_id_conv) (metis)
  then have good: "\<forall>w \<in> set ws. goodWord maxLength w"
    using short noempty spaceFree_splitWhitespace [of _ "text"]
    by (auto simp: goodWord_def ws_def)
  obtain st where st: "forEachWord maxLength ws ?init = Some st"
    using forEachWord_total [OF n] by blast
  have "breakInRange ?init" and "groupedAs ?init []"
    by (simp_all add: breakInRange_def groupedAs_def)
  from forEachWord_groups [OF n good this _ st]
  obtain gs where gs: "groupedAs st gs" "concat gs @ currentWords st = ws"
      "\<forall>x \<in> set (currentWords st). goodWord maxLength x"
    by auto
  define gs' where "gs' = (if currentWords st = [] then gs else gs @ [currentWords st])"
  define chunks where "chunks =
    (if length (currentWords st) > 0 then tweets st @ [trim (buildTweet (currentWords st))]
     else tweets st)"
  have res: "createTweets text maxLength = Some chunks"
    using st by (simp add: createTweets_def chunks_def ws_def)
  have "currentWords st \<noteq> [] \<Longrightarrow> trim (buildTweet (currentWords st)) = buildTweet (currentWords st)"
    using gs(3) trim_buildTweet by blast
  then have chunks: "chunks = map buildTweet gs'"
    using gs(1) by (simp add: chunks_def gs'_def groupedAs_def)
  have gs': "[] \<notin> set gs'" "concat gs' = ws"
    using gs(1,2) by (auto simp: gs'_def groupedAs_def)
  have "ws \<noteq> []"
    using ne by (subst ws_def, subst splitWhitespace.simps) (simp split: list.split)
  have "join [0x20] chunks = buildTweet ws"
    using buildTweet_groups [OF gs'(1)] gs'(2) by (simp add: chunks buildTweet_def)
  then have "splitWhitespace (join [0x20] chunks) = ws"
    using \<open>ws \<noteq> []\<close> good splitWhitespace_buildTweet by simp
  then have "createTweets (join [0x20] chunks) maxLength = createTweets text maxLength"
    by (simp add: createTweets_def ws_def)
  then show ?thesis
    using res by simp
qed

theorem createTweets_stable_witness:
  "(1::nat) \<le> 10
   \<and> str ''Hi there.  Bye now.'' \<noteq> []
   \<and> noEdgeSpace (str ''Hi there.  Bye now.'')
   \<and> map length (wordsOf (str ''Hi there.  Bye now.'')) = [2, 6, 3, 4]
   \<and> (\<exists>chunks. createTweets (str ''Hi there.  Bye now.'') 10 = Some chunks
         \<and> createTweets (join [0x20] chunks) 10 = Some chunks)"
proof -
  have w: "wordsOf (str ''Hi there.  Bye now.'') = [str ''Hi'', str ''there.'', str ''Bye'', str ''now.'']"
    by (simp add: eval_simps wordsOf_def)
  have h: "str ''Hi there.  Bye now.'' \<noteq> []"
    "noEdgeSpace (str ''Hi there.  Bye now.'')"
    "\<forall>w \<in> set (wordsOf (str ''Hi there.  Bye now.'')). length w \<le> 10"
    unfolding w by (simp_all add: str_def isWhiteSpace_def noEdgeSpace_def)
  have n: "(1::nat) \<le> 10"
    by simp
  have "map length (wordsOf (str ''Hi there.  Bye now.'')) = [2, 6, 3, 4]"
    unfolding w by (simp add: str_def)
  then show ?thesis
    using createTweets_stable [OF n h] n h(1,2) by blast
qed

section \<open>Concrete runs of createTweets\<close>

text \<open>
  C4. With \<open>maxLength = 10\<close> the text \<open>Hi there. Bye now.\<close> is split into the words
  \<open>Hi\<close>, \<open>there.\<close>, \<open>Bye\<close>, \<open>now.\<close>. After \<open>Hi\<close> and \<open>there.\<close> the buffer holds both
  and the sentence break is index 1, the place of \<open>there.\<close>. Adding \<open>Bye\<close> would give 13
  code units, more than 10, so the overflow branch runs with a sentence break set: it
  emits the buffer up to and with index 1, \<open>Hi there.\<close>, keeps the words after the break
  (none), resets the break to \<open>-1\<close>, and \<open>Bye\<close> starts the next buffer. The loop ends with
  \<open>Bye\<close>, \<open>now.\<close> buffered, and the final flush gives exactly the two chunks \<open>Hi there.\<close>
  and \<open>Bye now.\<close>.
\<close>

theorem createTweets_hi_there:
  "splitWhitespace (str ''Hi there. Bye now.'')
     = [str ''Hi'', str ''there.'', str ''Bye'', str ''now.'']
   \<and> endsSentence (str ''there.'')
   \<and> forEachWord 10 [str ''Hi'', str ''there.'']
         \<lparr>tweets = [], currentWords = [], lastSentenceBreak = - 1\<rparr>
       = Some \<lparr>tweets = [], currentWords = [str ''Hi'', str ''there.''], lastSentenceBreak = 1\<rparr>
   \<and> length (join [0x20] [str ''Hi'', str ''there.'', str ''Bye'']) = 13
   \<and> flushTweet \<lparr>tweets = [], currentWords = [str ''Hi'', str ''there.''], lastSentenceBreak = 1\<rparr>
       = \<lparr>tweets = [trim (buildTweet (slice [str ''Hi'', str ''there.''] 0 (nat (1 + 1))))],
          currentWords = drop (nat (1 + 1)) [str ''Hi'', str ''there.''],
          lastSentenceBreak = - 1\<rparr>
   \<and> trim (buildTweet (slice [str ''Hi'', str ''there.''] 0 (nat (1 + 1)))) = str ''Hi there.''
   \<and> drop (nat (1 + 1)) [str ''Hi'', str ''there.''] = []
   \<and> wordStep 10
         \<lparr>tweets = [], currentWords = [str ''Hi'', str ''there.''], lastSentenceBreak = 1\<rparr>
         (str ''Bye'')
       = Some \<lparr>tweets = [str ''Hi there.''], currentWords = [str ''Bye''],
                lastSentenceBreak = - 1\<rparr>
   \<and> forEachWord 10 (splitWhitespace (str ''Hi there. Bye now.''))
         \<lparr>tweets = [], currentWords = [], lastSentenceBreak = - 1\<rparr>
       = Some \<lparr>tweets = [str ''Hi there.''], currentWords = [str ''Bye'', str ''now.''],
                lastSentenceBreak = 1\<rparr>
   \<and> createTweets (str ''Hi there. Bye now.'') 10 = Some [str ''Hi there.'', str ''Bye now.'']"
  by (simp add: eval_simps)

text \<open>
  C5. With \<open>maxLength = 5\<close> the single word \<open>Supercalifragilistic\<close> (20 code units) gives
  exactly four chunks of length 5, each part a chunk of its own.
\<close>

theorem createTweets_long_word:
  "createTweets (str ''Supercalifragilistic'') 5
     = Some [str ''Super'', str ''calif'', str ''ragil'', str ''istic'']
   \<and> length (str ''Supercalifragilistic'') = 20
   \<and> map length [str ''Super'', str ''calif'', str ''ragil'', str ''istic''] = [5, 5, 5, 5]"
  by (simp add: eval_simps)

text \<open>
  C1, at an input where it fails. With \<open>maxLength = 12\<close> and the text
  \<open>Hi. Welcome everyone\<close>, the overflow at \<open>everyone\<close> cuts after \<open>Hi.\<close>, the word
  \<open>Welcome\<close> is carried over, and \<open>everyone\<close> is pushed after it with no test of the
  length: the second chunk has 16 code units.
\<close>

theorem createTweets_carry_over_too_long:
  "createTweets (str ''Hi. Welcome everyone'') 12 = Some [str ''Hi.'', str ''Welcome everyone'']
   \<and> length (str ''Welcome everyone'') = 16"
  by (simp add: eval_simps)

text \<open>
  C3, at inputs where it fails. The empty text is split into the one word \<open>""\<close>, which
  is pushed to \<open>currentWords\<close>, so the final flush emits one empty chunk; a text of
  white space only is split into two empty words and gives the same result.
\<close>

theorem createTweets_empty_text:
  "createTweets (str []) 250 = Some [str []]
   \<and> createTweets (str ''   '') 250 = Some [str []]"
  by (simp add: eval_simps)

section \<open>sanitizeFileName\<close>

lemma replaceClass_Nil_filter: "replaceClass cls [] name = filter (\<lambda>c. c \<notin> set cls) name"
  by (induction name) simp_all

text \<open>
  C9. \<open>sanitizeFileName\<close> returns the name without its backslashes, slashes, colons,
  stars, question marks, double quotes, less and greater signs and bars, every other code
  unit kept in order; so none of the nine is in the result.
\<close>

theorem sanitizeFileName_filter:
  "sanitizeFileName name
     = filter (\<lambda>c. c \<notin> {0x5C, 0x2F, 0x3A, 0x2A, 0x3F, 0x22, 0x3C, 0x3E, 0x7C}) name
   \<and> set (sanitizeFileName name) \<inter> {0x5C, 0x2F, 0x3A, 0x2A, 0x3F, 0x22, 0x3C, 0x3E, 0x7C} = {}"
proof -
  have "sanitizeFileName name
     = filter (\<lambda>c. c \<notin> {0x5C, 0x2F, 0x3A, 0x2A, 0x3F, 0x22, 0x3C, 0x3E, 0x7C}) name"
    by (simp add: sanitizeFileName_def replaceClass_Nil_filter illegalChars_def)
  then show ?thesis
    by auto
qed

end
